theory Spec2Isabelle
  imports Main "HOL-Library.Char_ord" "HOL-Library.List_Lexorder" "HOL-Library.Product_Lexorder"
begin

section \<open>Antigravity Sync: the archive sync engine of \<open>sync_app.py\<close>\<close>

text \<open>
  The engine is the class \<open>SyncLogic\<close> (path filter, retention pruning, backup, restore) and
  the method \<open>SyncApp.scheduler_loop\<close>. Strings are \<open>char list\<close> (bytes; the UTF-8 encoding
  keeps the order of code points, so the order of file names is the one Python computes).
  What the engine asks of the operating system and of the Python library (the glob matcher
  \<open>fnmatch\<close>, \<open>os.path.isabs\<close>, which files exist, which calls raise) is a parameter
  of the model, so every theorem holds for every platform and every outcome of those calls.
\<close>

subsection \<open>Strings\<close>

text \<open>\<open>str.split(sep)\<close> for a one-character separator: \<open>n\<close> separators give \<open>n + 1\<close> pieces,
  empty pieces included, and the empty string gives one empty piece.\<close>

fun split_on :: "char \<Rightarrow> string \<Rightarrow> string list" where
  "split_on sep [] = [[]]"
| "split_on sep (c # cs) =
     (if c = sep then [] # split_on sep cs
      else (case split_on sep cs of
              [] \<Rightarrow> [[c]]
            | p # ps \<Rightarrow> (c # p) # ps))"

text \<open>\<open>str.replace(old, new)\<close> for one-character arguments.\<close>

definition replace_char :: "char \<Rightarrow> char \<Rightarrow> string \<Rightarrow> string" where
  "replace_char old new s = map (\<lambda>c. if c = old then new else c) s"

definition backslash :: char where
  "backslash = CHR 0x5C"

text \<open>\<open>str.startswith\<close>.\<close>

fun startswith :: "string \<Rightarrow> string \<Rightarrow> bool" where
  "startswith s [] = True"
| "startswith [] (p # ps) = False"
| "startswith (c # cs) (p # ps) = (c = p \<and> startswith cs ps)"

subsection \<open>Configuration (\<open>SyncConfig\<close>)\<close>

text \<open>The values \<open>SyncConfig.get\<close> returns for the keys the engine reads, and the attributes
  \<open>hostname\<close> and \<open>base_user_path\<close>. \<open>retention_count\<close> is a Python integer: the settings
  dialog clamps it to 1..7 on save, a configuration file read from disk is not clamped.\<close>

record config =
  drive_path :: string
  target_folders :: "string list"
  retention_count :: int
  ignore_patterns :: "string list"
  scheduled_times :: "string list"
  hostname :: string
  base_user_path :: string

definition file_prefix_str :: string where
  "file_prefix_str = ''Antigravity_Backup''"

subsection \<open>Path filter (\<open>SyncLogic.should_ignore\<close>)\<close>

text \<open>The library's matcher \<open>glob.fnmatch.fnmatch name pattern\<close> is the parameter \<open>fnm\<close>.
  The two nested loops return at the first match.\<close>

type_synonym matcher = "string \<Rightarrow> string \<Rightarrow> bool"

fun match_patterns :: "matcher \<Rightarrow> string \<Rightarrow> string list \<Rightarrow> bool" where
  "match_patterns fnm part [] = False"
| "match_patterns fnm part (p # ps) =
     (if fnm part p then True else match_patterns fnm part ps)"

fun match_parts :: "matcher \<Rightarrow> string list \<Rightarrow> string list \<Rightarrow> bool" where
  "match_parts fnm patterns [] = False"
| "match_parts fnm patterns (part # parts) =
     (if match_patterns fnm part patterns then True
      else match_parts fnm patterns parts)"

definition path_parts :: "string \<Rightarrow> string list" where
  "path_parts path = split_on (CHR ''/'') (replace_char backslash (CHR ''/'') path)"

definition should_ignore :: "matcher \<Rightarrow> config \<Rightarrow> string \<Rightarrow> bool" where
  "should_ignore fnm cfg path =
     (let patterns = ignore_patterns cfg;
          parts = path_parts path
      in match_parts fnm patterns parts)"


text \<open>A matcher for patterns built from literal characters, \<open>*\<close> and \<open>?\<close> (the fragment of
  \<open>fnmatch\<close> without bracket classes, compared case-sensitively), used to run the filter
  on concrete paths.\<close>

fun wildcard :: "string \<Rightarrow> string \<Rightarrow> bool" where
  "wildcard [] [] = True"
| "wildcard (c # cs) [] = False"
| "wildcard [] (p # ps) = (p = CHR ''*'' \<and> wildcard [] ps)"
| "wildcard (c # cs) (p # ps) =
     (if p = CHR ''*'' then wildcard (c # cs) ps \<or> wildcard cs (p # ps)
      else if p = CHR ''?'' then wildcard cs ps
      else c = p \<and> wildcard cs ps)"


text \<open>\<open>sep.join(parts)\<close>, the inverse of the split.\<close>

fun join_with :: "char \<Rightarrow> string list \<Rightarrow> string" where
  "join_with sep [] = []"
| "join_with sep [p] = p"
| "join_with sep (p # q # ps) = p @ sep # join_with sep (q # ps)"

subsection \<open>Numbers and timestamps as text\<close>

definition digit_char :: "nat \<Rightarrow> char" where
  "digit_char d = char_of (48 + d)"

text \<open>\<open>str(n)\<close> for an integer.\<close>

fun str_nat :: "nat \<Rightarrow> string" where
  "str_nat n = (if n < 10 then [digit_char n] else str_nat (n div 10) @ [digit_char (n mod 10)])"

declare str_nat.simps [simp del]

definition str_int :: "int \<Rightarrow> string" where
  "str_int i = (if i < 0 then CHR ''-'' # str_nat (nat (- i)) else str_nat (nat i))"

text \<open>The zero-padded fields of \<open>strftime\<close>: \<open>%m %d %H %M %S\<close> have two digits, \<open>%Y\<close> has
  four for the years 1000 to 9999.\<close>

definition two_digits :: "nat \<Rightarrow> string" where
  "two_digits n = [digit_char (n div 10 mod 10), digit_char (n mod 10)]"

definition four_digits :: "nat \<Rightarrow> string" where
  "four_digits n = two_digits (n div 100) @ two_digits (n mod 100)"

text \<open>A reading of \<open>datetime.now()\<close>: year, month, day, hour, minute, second. The order of
  the tuples (lexicographic, field by field) is the chronological order of the readings.\<close>

type_synonym datetime = "nat \<times> nat \<times> nat \<times> nat \<times> nat \<times> nat"

definition valid_datetime :: "datetime \<Rightarrow> bool" where
  "valid_datetime t = (case t of (y, mo, d, h, mi, s) \<Rightarrow>
     1000 \<le> y \<and> y \<le> 9999 \<and> 1 \<le> mo \<and> mo \<le> 12 \<and> 1 \<le> d \<and> d \<le> 31 \<and> h < 24 \<and> mi < 60 \<and> s < 60)"

text \<open>\<open>now.strftime("%Y%m%d_%H%M%S")\<close> and \<open>now.strftime("%H:%M")\<close>.\<close>

definition strftime_stamp :: "datetime \<Rightarrow> string" where
  "strftime_stamp t = (case t of (y, mo, d, h, mi, s) \<Rightarrow>
     four_digits y @ two_digits mo @ two_digits d @ ''_'' @ two_digits h @ two_digits mi @ two_digits s)"

definition strftime_hm :: "datetime \<Rightarrow> string" where
  "strftime_hm t = (case t of (y, mo, d, h, mi, s) \<Rightarrow> two_digits h @ '':'' @ two_digits mi)"

text \<open>The archive name of \<open>run_backup\<close>:
  \<open>f"{self.cfg.file_prefix}_{self.cfg.hostname}_{timestamp}.zip"\<close>.\<close>

definition archive_name :: "string \<Rightarrow> datetime \<Rightarrow> string" where
  "archive_name host t = file_prefix_str @ ''_'' @ host @ ''_'' @ strftime_stamp t @ ''.zip''"

text \<open>\<open>files.sort(reverse=True)\<close> on strings, and \<open>files[0]\<close> of the sorted list, as
  \<open>run_restore\<close> selects the latest backup (\<open>None\<close> on the empty list, which the source
  excludes before it sorts).\<close>

definition sort_reverse :: "string list \<Rightarrow> string list" where
  "sort_reverse files = rev (sort files)"

definition latest_backup :: "string list \<Rightarrow> string option" where
  "latest_backup files = (case sort_reverse files of [] \<Rightarrow> None | f # _ \<Rightarrow> Some f)"

text \<open>\<open>xs[i:]\<close> for a Python integer \<open>i\<close>: a negative index counts from the end.\<close>

definition slice_from :: "int \<Rightarrow> 'a list \<Rightarrow> 'a list" where
  "slice_from i xs =
     (if 0 \<le> i then drop (nat i) xs else drop (nat (int (length xs) + i)) xs)"

text \<open>\<open>str.strip()\<close>: the ASCII characters Python counts as whitespace.\<close>

definition is_space :: "char \<Rightarrow> bool" where
  "is_space c = (let n = (of_char c :: nat) in (9 \<le> n \<and> n \<le> 13) \<or> (28 \<le> n \<and> n \<le> 32))"

definition strip :: "string \<Rightarrow> string" where
  "strip s = rev (dropWhile is_space (rev (dropWhile is_space s)))"

subsection \<open>The reporting channel and the state of a \<open>SyncLogic\<close> instance\<close>

text \<open>The tagged events put on the queue. A progress event keeps the pair \<open>(k, n)\<close> its
  fraction is computed from (\<open>k / n\<close> in a backup, \<open>(k / n) * 0.1\<close> in the analysis pass of a
  restore, \<open>0.1 + (k / n) * 0.9\<close> in its extraction pass) and the label; the elapsed time and
  the ETA text are readings of the wall clock and are left out.\<close>

datatype event = Log string | Progress nat nat string | Finish bool string

text \<open>\<open>queue\<close> is \<open>None\<close> when the instance was built without a queue; \<open>printed\<close> is what
  \<open>log\<close> then prints instead.\<close>

record logic =
  cfg :: config
  queue :: "event list option"
  stop_requested :: bool
  printed :: "string list"

definition init_logic :: "config \<Rightarrow> event list option \<Rightarrow> logic" where
  "init_logic c q = \<lparr>cfg = c, queue = q, stop_requested = False, printed = []\<rparr>"

definition log :: "logic \<Rightarrow> string \<Rightarrow> logic" where
  "log l text =
     (case queue l of
        Some q \<Rightarrow> l\<lparr>queue := Some (q @ [Log text])\<rparr>
      | None \<Rightarrow> l\<lparr>printed := printed l @ [text]\<rparr>)"

definition progress :: "logic \<Rightarrow> nat \<Rightarrow> nat \<Rightarrow> string \<Rightarrow> logic" where
  "progress l k n msg =
     (case queue l of
        Some q \<Rightarrow> l\<lparr>queue := Some (q @ [Progress k n msg])\<rparr>
      | None \<Rightarrow> l)"

definition finish :: "logic \<Rightarrow> bool \<Rightarrow> string \<Rightarrow> logic" where
  "finish l success msg =
     (case queue l of
        Some q \<Rightarrow> l\<lparr>queue := Some (q @ [Finish success msg])\<rparr>
      | None \<Rightarrow> l)"

definition abort :: "logic \<Rightarrow> logic" where
  "abort l = l\<lparr>stop_requested := True\<rparr>"

text \<open>The events on the queue (none without a queue).\<close>

definition events :: "logic \<Rightarrow> event list" where
  "events l = (case queue l of Some q \<Rightarrow> q | None \<Rightarrow> [])"

text \<open>The statement \<open>if not silent: ...\<close> of \<open>run_backup\<close>.\<close>

definition unless_silent :: "bool \<Rightarrow> (logic \<Rightarrow> logic) \<Rightarrow> logic \<Rightarrow> logic" where
  "unless_silent silent f l = (if \<not> silent then f l else l)"

subsection \<open>The world outside the engine\<close>

text \<open>A directory tree under a source folder: the file names of a directory and its
  subdirectories, in the order \<open>os.walk\<close> lists them.\<close>

datatype tree = Dir "string list" "(string \<times> tree) list"

text \<open>An entry of the storage directory opens as a ZIP archive with these member names, or
  \<open>zipfile.ZipFile\<close> raises on it with this message.\<close>

datatype content = Zip "string list" | Unreadable string

datatype extract_failure = PermissionError string | OtherError string

text \<open>
  \<^item> \<open>fnmatch\<close>, \<open>isabs\<close>, \<open>sep\<close>: the platform's \<open>fnmatch.fnmatch\<close>, \<open>os.path.isabs\<close>
    and \<open>os.sep\<close>;
  \<^item> \<open>storage\<close>: the entries of the storage directory \<open>drive_path\<close> by name, \<open>None\<close> when the
    directory does not exist; a path in that directory is identified with its base name
    (all paths \<open>glob\<close> returns share the directory, so they sort as their base names do);
  \<^item> \<open>makedirs_error\<close>, \<open>open_error\<close>, \<open>write_error\<close>, \<open>remove_error\<close>,
    \<open>extract_error\<close>: the message of the exception that \<open>os.makedirs\<close>, opening the new
    archive for writing, \<open>zip_file.write\<close> of a source file, \<open>os.remove\<close> of an entry and
    \<open>zf.extract\<close> of a member raise, \<open>None\<close> when the call succeeds;
  \<^item> \<open>source_tree\<close>: the tree at \<open>base_user_path/folder\<close>, \<open>None\<close> when the path does not
    exist;
  \<^item> \<open>size_text\<close>: the size of an entry in MB as \<open>scan_for_backups\<close> formats it;
  \<^item> \<open>written\<close>, \<open>extracted\<close>: the archive names passed to the calls of \<open>zip_file.write\<close>
    that succeeded, and the members passed to the calls of \<open>zf.extract\<close> that succeeded, in
    order (the trace of what the engine wrote on either side).
\<close>

record world =
  fnmatch :: matcher
  isabs :: "string \<Rightarrow> bool"
  sep :: char
  storage :: "(string \<times> content) list option"
  makedirs_error :: "string option"
  open_error :: "string option"
  write_error :: "string \<Rightarrow> string option"
  remove_error :: "string \<Rightarrow> string option"
  extract_error :: "string \<Rightarrow> extract_failure option"
  source_tree :: "string \<Rightarrow> tree option"
  size_text :: "string \<Rightarrow> string"
  written :: "string list"
  extracted :: "string list"

definition entries :: "world \<Rightarrow> (string \<times> content) list" where
  "entries w = (case storage w of None \<Rightarrow> [] | Some es \<Rightarrow> es)"

definition entry_names :: "world \<Rightarrow> string list" where
  "entry_names w = map fst (entries w)"

text \<open>\<open>os.path.join(a, b)\<close> for a relative \<open>b\<close> and an \<open>a\<close> that does not end in a separator.\<close>

definition path_join :: "char \<Rightarrow> string \<Rightarrow> string \<Rightarrow> string" where
  "path_join s a b = a @ s # b"

text \<open>\<open>glob.glob(os.path.join(drive_path, f"{file_prefix}_*.zip"))\<close>: the entries of the
  storage directory whose name matches, in the order of the directory.\<close>

definition archive_pattern :: string where
  "archive_pattern = file_prefix_str @ ''_*.zip''"

definition glob_archives :: "world \<Rightarrow> string list" where
  "glob_archives w = filter (\<lambda>n. fnmatch w n archive_pattern) (entry_names w)"

text \<open>\<open>os.remove(path)\<close>: the error message when it raises, and the world after it.\<close>

definition os_remove :: "world \<Rightarrow> string \<Rightarrow> string option \<times> world" where
  "os_remove w name =
     (if map_of (entries w) name = None then (Some ''No such file or directory'', w)
      else (case remove_error w name of
              Some e \<Rightarrow> (Some e, w)
            | None \<Rightarrow>
                (None, w\<lparr>storage := map_option (filter (\<lambda>(n, c). n \<noteq> name)) (storage w)\<rparr>)))"

text \<open>\<open>zipfile.ZipFile(path, 'w', ...)\<close>: creates the archive, or truncates the entry of that
  name; raises when the directory is missing or the file cannot be opened.\<close>

definition zip_create :: "world \<Rightarrow> string \<Rightarrow> string + world" where
  "zip_create w name =
     (case open_error w of
        Some e \<Rightarrow> Inl e
      | None \<Rightarrow>
          (case storage w of
             None \<Rightarrow> Inl ''No such file or directory''
           | Some es \<Rightarrow>
               Inr (w\<lparr>storage := Some (if map_of es name = None then es @ [(name, Zip [])]
                                        else map (\<lambda>(n, c). if n = name then (n, Zip []) else (n, c)) es)\<rparr>)))"

text \<open>A successful \<open>zip_file.write(src_file, zip_path)\<close> into the archive \<open>name\<close>; the
  member is stored with \<open>/\<close> as its separator.\<close>

definition zip_write :: "world \<Rightarrow> string \<Rightarrow> string \<Rightarrow> world" where
  "zip_write w name zip_path =
     w\<lparr>storage := map_option
          (map (\<lambda>(n, c). if n = name
                  then (n, (case c of Zip ms \<Rightarrow> Zip (ms @ [replace_char (sep w) (CHR ''/'') zip_path])
                                    | Unreadable e \<Rightarrow> Unreadable e))
                  else (n, c)))
          (storage w),
       written := written w @ [zip_path]\<rparr>"

subsection \<open>\<open>SyncLogic.ensure_drive\<close>\<close>

definition ensure_drive :: "logic \<Rightarrow> world \<Rightarrow> bool \<times> logic \<times> world" where
  "ensure_drive l w =
     (if drive_path (cfg l) = [] then
        (False, log l ''ERROR: Drive path is not configured.'', w)
      else if storage w = None then
        (case makedirs_error w of
           Some e \<Rightarrow> (False, log l (''Could not create directory: '' @ e), w)
         | None \<Rightarrow> (True, l, w\<lparr>storage := Some []\<rparr>))
      else (True, l, w))"

subsection \<open>Retention pruning (\<open>SyncLogic.cleanup_old_backups\<close>)\<close>

text \<open>The loop over \<open>files_to_delete\<close>: a removal that raises is logged and the loop goes on.\<close>

fun delete_loop :: "logic \<Rightarrow> world \<Rightarrow> string list \<Rightarrow> logic \<times> world" where
  "delete_loop l w [] = (l, w)"
| "delete_loop l w (f # fs) =
     (case os_remove w f of
        (None, w') \<Rightarrow> delete_loop (log l (''Deleted old backup: '' @ f)) w' fs
      | (Some e, w') \<Rightarrow> delete_loop (log l (''Failed to delete '' @ f @ '': '' @ e)) w' fs)"

definition cleanup_old_backups :: "logic \<Rightarrow> world \<Rightarrow> logic \<times> world" where
  "cleanup_old_backups l w =
     (let count = retention_count (cfg l);
          l1 = log l (''Cleaning up logic (Keep last '' @ str_int count @ '')...'');
          files = sort_reverse (glob_archives w)
      in if int (length files) > count then
           (let files_to_delete = slice_from count files
            in delete_loop l1 w files_to_delete)
         else (l1, w))"

text \<open>\<open>scan_for_backups\<close> only reports: it logs the archives found and their sizes.\<close>

definition page_icon :: string where
  "page_icon = [CHR 0xF0, CHR 0x9F, CHR 0x93, CHR 0x84]"

definition scan_for_backups :: "logic \<Rightarrow> world \<Rightarrow> logic \<times> world" where
  "scan_for_backups l w =
     (case ensure_drive l w of
        (False, l1, w1) \<Rightarrow> (l1, w1)
      | (True, l1, w1) \<Rightarrow>
          (let files = sort_reverse (glob_archives w1)
           in if files \<noteq> [] then
                (let l2 = log l1 (''=== Found '' @ str_nat (length files) @ '' remote backups ==='');
                     l3 = fold (\<lambda>f la. log la (page_icon @ '' '' @ f @ '' ('' @ size_text w1 f @ '' MB)'')) files l2
                 in (log l3 ''=================================='', w1))
              else (log l1 ''=== No remote backups found ==='', w1)))"

subsection \<open>Backup (\<open>SyncLogic.run_backup\<close>)\<close>

text \<open>\<open>os.walk(source_path)\<close> with the filter of the source: a directory whose name is ignored
  is not entered, a file whose name is ignored is skipped. \<open>root\<close> is the path of the
  directory walked and \<open>arc\<close> the same path below the folder name, so a file gives the pair
  \<open>(full_file_path, arcname)\<close>. The files of a directory come before those of its
  subdirectories.\<close>

fun walk :: "world \<Rightarrow> config \<Rightarrow> string \<Rightarrow> string \<Rightarrow> tree \<Rightarrow> (string \<times> string) list"
  and walk_dirs :: "world \<Rightarrow> config \<Rightarrow> string \<Rightarrow> string \<Rightarrow> (string \<times> tree) list \<Rightarrow> (string \<times> string) list"
where
  "walk w c root arc (Dir files dirs) =
     map (\<lambda>file. (path_join (sep w) root file, path_join (sep w) arc file))
         (filter (\<lambda>file. \<not> should_ignore (fnmatch w) c file) files)
     @ walk_dirs w c root arc dirs"
| "walk_dirs w c root arc [] = []"
| "walk_dirs w c root arc ((d, t) # dirs) =
     (if should_ignore (fnmatch w) c d then []
      else walk w c (path_join (sep w) root d) (path_join (sep w) arc d) t)
     @ walk_dirs w c root arc dirs"

text \<open>The loop over \<open>target_folders\<close> that fills \<open>files_to_zip\<close>.\<close>

fun collect_files :: "logic \<Rightarrow> world \<Rightarrow> bool \<Rightarrow> string list \<Rightarrow> logic \<times> (string \<times> string) list" where
  "collect_files l w silent [] = (l, [])"
| "collect_files l w silent (folder0 # rest) =
     (let folder = strip folder0
      in if folder = [] then collect_files l w silent rest
         else
           (let source_path = path_join (sep w) (base_user_path (cfg l)) folder
            in case source_tree w folder of
                 Some t \<Rightarrow>
                   (let l1 = unless_silent silent (\<lambda>la. log la (''Scanning: '' @ source_path)) l;
                        (l2, more) = collect_files l1 w silent rest
                    in (l2, walk w (cfg l) source_path folder t @ more))
               | None \<Rightarrow>
                   collect_files
                     (unless_silent silent
                        (\<lambda>la. log la (''Warning: Folder '' @ folder @ '' not found.'')) l)
                     w silent rest))"

text \<open>How a loop over entries ends: it ran through, it took the cancellation branch, or an
  exception left it.\<close>

datatype loop_end = LoopDone | LoopCancelled | LoopRaised string

text \<open>The flag \<open>self.stop_requested\<close> as the checkpoint of entry \<open>idx\<close> reads it. Another
  thread may call \<open>abort()\<close> while the loop runs: \<open>abort_at = Some k\<close> says that the call is
  seen from checkpoint \<open>k\<close> on. The flag is never reset, so a run started with the flag set
  sees it at every checkpoint. The loops do not assign the flag; the instance that leaves a
  loop by its cancellation branch has it set, by the call the checkpoint saw.\<close>

definition stop_seen :: "logic \<Rightarrow> nat option \<Rightarrow> nat \<Rightarrow> bool" where
  "stop_seen l abort_at idx =
     (stop_requested l \<or> (case abort_at of Some k \<Rightarrow> k \<le> idx | None \<Rightarrow> False))"

text \<open>The loop over \<open>files_to_zip\<close> inside the \<open>with\<close> block. The division
  \<open>(idx + 1) / total_files\<close> raises on a zero divisor.\<close>

fun write_loop ::
  "bool \<Rightarrow> nat option \<Rightarrow> string \<Rightarrow> nat \<Rightarrow> logic \<Rightarrow> world \<Rightarrow> nat \<Rightarrow> (string \<times> string) list
     \<Rightarrow> logic \<times> world \<times> loop_end" where
  "write_loop silent abort_at dest total_files l w idx [] = (l, w, LoopDone)"
| "write_loop silent abort_at dest total_files l w idx ((src_file, zip_path) # rest) =
     (if stop_seen l abort_at idx then
        (let l1 = unless_silent silent (\<lambda>la. log la ''Backup Cancelled.'') (l\<lparr>stop_requested := True\<rparr>);
             (err, w1) = os_remove w dest;
             l2 = unless_silent silent (\<lambda>la. finish la False ''Cancelled'') l1
         in (l2, w1, LoopCancelled))
      else
        (let (l1, w1) =
               (case write_error w src_file of
                  Some fe \<Rightarrow>
                    (unless_silent silent
                       (\<lambda>la. log la (''Error skipping file '' @ src_file @ '': '' @ fe)) l, w)
                | None \<Rightarrow> (l, zip_write w dest zip_path))
         in if total_files = 0 then (l1, w1, LoopRaised ''division by zero'')
            else write_loop silent abort_at dest total_files
                   (unless_silent silent (\<lambda>la. progress la (idx + 1) total_files []) l1)
                   w1 (idx + 1) rest))"

text \<open>\<open>run_backup(silent)\<close> at the clock reading \<open>now\<close>. The third component is the value
  the Python function returns: \<open>None\<close> for a bare \<open>return\<close>, \<open>Some True\<close>, \<open>Some False\<close>.\<close>

definition backup_failed :: "bool \<Rightarrow> logic \<Rightarrow> string \<Rightarrow> logic" where
  "backup_failed silent l e =
     unless_silent silent
       (\<lambda>la. finish (log la (''[CRITICAL ERROR] Failed to create ZIP: '' @ e)) False e) l"

definition run_backup ::
  "logic \<Rightarrow> world \<Rightarrow> datetime \<Rightarrow> nat option \<Rightarrow> bool \<Rightarrow> logic \<times> world \<times> bool option" where
  "run_backup l w now abort_at silent =
     (let l1 = unless_silent silent
                 (\<lambda>la. log la (''--- Starting BACKUP ('' @ hostname (cfg l) @ '') ---'')) l
      in case ensure_drive l1 w of
           (False, l2, w2) \<Rightarrow>
             (unless_silent silent (\<lambda>la. finish la False ''Drive not available'') l2, w2, None)
         | (True, l2, w2) \<Rightarrow>
             (let final_zip_name = archive_name (hostname (cfg l)) now;
                  full_output_path = path_join (sep w) (drive_path (cfg l)) final_zip_name;
                  (l3, files_to_zip) = collect_files l2 w2 silent (target_folders (cfg l))
              in if files_to_zip = [] then
                   (unless_silent silent
                      (\<lambda>la. finish (log la ''No files found to back up.'') False ''No files found'') l3,
                    w2, None)
                 else
                   (let l4 = unless_silent silent
                               (\<lambda>la. log la (''Creating archive: '' @ final_zip_name)) l3;
                        total_files = length files_to_zip
                    in case zip_create w2 final_zip_name of
                         Inl e \<Rightarrow> (backup_failed silent l4 e, w2, Some False)
                       | Inr w3 \<Rightarrow>
                           (case write_loop silent abort_at final_zip_name total_files l4 w3 0 files_to_zip of
                              (l5, w5, LoopCancelled) \<Rightarrow> (l5, w5, None)
                            | (l5, w5, LoopRaised e) \<Rightarrow> (backup_failed silent l5 e, w5, Some False)
                            | (l5, w5, LoopDone) \<Rightarrow>
                                (let l6 = unless_silent silent
                                            (\<lambda>la. log la (''[SUCCESS] Backup saved to: '' @ full_output_path)) l5;
                                     (l7, w7) = cleanup_old_backups l6 w5
                                 in (unless_silent silent (\<lambda>la. finish la True ''Backup Complete'') l7,
                                     w7, Some True))))))"

subsection \<open>Restore (\<open>SyncLogic.run_restore\<close>)\<close>

text \<open>The analysis pass: \<open>an_prog = (i / total_files) * 0.1\<close> raises on a zero divisor.\<close>

fun analyse_loop :: "nat \<Rightarrow> logic \<Rightarrow> nat \<Rightarrow> string list \<Rightarrow> logic \<times> loop_end" where
  "analyse_loop total_files l i [] = (l, LoopDone)"
| "analyse_loop total_files l i (file # rest) =
     (if total_files = 0 then (l, LoopRaised ''division by zero'')
      else analyse_loop total_files (progress l i total_files ''Analyzing...'') (i + 1) rest)"

definition warning_sign :: string where
  "warning_sign = [CHR 0xE2, CHR 0x9A, CHR 0xA0, CHR 0xEF, CHR 0xB8, CHR 0x8F]"

text \<open>The extraction pass. A member that starts with \<open>..\<close> or is absolute, and a member the
  filter ignores, is passed over by \<open>continue\<close>; so is a member whose extraction raises,
  after a log line.\<close>

fun extract_loop ::
  "nat option \<Rightarrow> nat \<Rightarrow> logic \<Rightarrow> world \<Rightarrow> nat \<Rightarrow> string list \<Rightarrow> logic \<times> world \<times> loop_end" where
  "extract_loop abort_at total_files l w idx [] = (l, w, LoopDone)"
| "extract_loop abort_at total_files l w idx (file # rest) =
     (if stop_seen l abort_at idx then
        (finish (l\<lparr>stop_requested := True\<rparr>) False ''Cancelled'', w, LoopCancelled)
      else if startswith file ''..'' \<or> isabs w file then
        extract_loop abort_at total_files l w (idx + 1) rest
      else if should_ignore (fnmatch w) (cfg l) file then
        extract_loop abort_at total_files l w (idx + 1) rest
      else
        (case extract_error w file of
           Some (PermissionError e) \<Rightarrow>
             extract_loop abort_at total_files
               (log l (warning_sign @ '' SKIPPED (Locked): '' @ file)) w (idx + 1) rest
         | Some (OtherError e) \<Rightarrow>
             extract_loop abort_at total_files
               (log l (warning_sign @ '' Error extracting '' @ file @ '': '' @ e)) w (idx + 1) rest
         | None \<Rightarrow>
             (let w1 = w\<lparr>extracted := extracted w @ [file]\<rparr>
              in if total_files = 0 then (l, w1, LoopRaised ''division by zero'')
                 else extract_loop abort_at total_files
                        (progress l (idx + 1) total_files
                           (''Copying files... ('' @ str_nat (idx + 1) @ ''/'' @ str_nat total_files @ '')''))
                        w1 (idx + 1) rest)))"

text \<open>The handler of the inner \<open>try\<close> around the archive.\<close>

definition zip_error :: "logic \<Rightarrow> string \<Rightarrow> logic" where
  "zip_error l e = finish (log l (''Zip Error: '' @ e)) False e"

text \<open>\<open>run_restore()\<close>. The Python function returns nothing on every path.\<close>

definition run_restore :: "logic \<Rightarrow> world \<Rightarrow> nat option \<Rightarrow> logic \<times> world" where
  "run_restore l w abort_at =
     (let l1 = log l ''--- Starting RESTORE ---''
      in case ensure_drive l1 w of
           (False, l2, w2) \<Rightarrow> (finish l2 False ''Drive not available'', w2)
         | (True, l2, w2) \<Rightarrow>
             (case latest_backup (glob_archives w2) of
                None \<Rightarrow>
                  (finish (log l2 ''No backup files found in Drive.'') False ''No backups found'', w2)
              | Some filename \<Rightarrow>
                  (let l3 = log (log l2 (''Found latest backup: '' @ filename)) ''Analyzing archive...''
                   in case map_of (entries w2) filename of
                        None \<Rightarrow> (zip_error l3 ''No such file or directory'', w2)
                      | Some (Unreadable e) \<Rightarrow> (zip_error l3 e, w2)
                      | Some (Zip file_list) \<Rightarrow>
                          (let total_files = length file_list
                           in case analyse_loop total_files l3 0 file_list of
                                (l4, LoopRaised e) \<Rightarrow> (zip_error l4 e, w2)
                              | (l4, LoopCancelled) \<Rightarrow> (l4, w2)
                              | (l4, LoopDone) \<Rightarrow>
                                  (case extract_loop abort_at total_files l4 w2 0 file_list of
                                     (l5, w5, LoopCancelled) \<Rightarrow> (l5, w5)
                                   | (l5, w5, LoopRaised e) \<Rightarrow> (zip_error l5 e, w5)
                                   | (l5, w5, LoopDone) \<Rightarrow>
                                       (finish
                                          (log l5 (''[SUCCESS] Restore completed from '' @ filename))
                                          True ''Restore Complete'',
                                        w5))))))"

subsection \<open>The scheduler (\<open>SyncApp.scheduler_loop\<close>)\<close>

text \<open>The state of the loop: the local \<open>last_run_minute\<close>, the log lines it puts on the
  application's queue, and the minutes at which it started a thread running
  \<open>run_backup(True)\<close>.\<close>

record scheduler =
  last_run_minute :: string
  app_queue :: "event list"
  started :: "string list"

definition alarm_clock :: string where
  "alarm_clock = [CHR 0xE2, CHR 0x8F, CHR 0xB0]"

text \<open>One iteration of \<open>while True\<close>, at the clock reading \<open>now\<close> and with
  \<open>threading.active_count()\<close> as read.\<close>

definition scheduler_step :: "config \<Rightarrow> scheduler \<Rightarrow> datetime \<times> nat \<Rightarrow> scheduler" where
  "scheduler_step c s tick =
     (case tick of (now, active_count) \<Rightarrow>
        (let current_hm = strftime_hm now;
             scheduled = scheduled_times c
         in if current_hm \<in> set scheduled \<and> current_hm \<noteq> last_run_minute s then
              (let s1 = s\<lparr>app_queue := app_queue s
                           @ [Log (alarm_clock @ '' Auto-Backup triggered at '' @ current_hm)]\<rparr>;
                   s2 = (if active_count < 5 then s1\<lparr>started := started s1 @ [current_hm]\<rparr> else s1)
               in s2\<lparr>last_run_minute := current_hm\<rparr>)
            else s))"

text \<open>The loop never returns; this is its state after the iterations at the given clock
  readings.\<close>

definition scheduler_loop :: "config \<Rightarrow> (datetime \<times> nat) list \<Rightarrow> scheduler" where
  "scheduler_loop c ticks =
     foldl (scheduler_step c) \<lparr>last_run_minute = [], app_queue = [], started = []\<rparr> ticks"

subsection \<open>Sequences of operations on one instance\<close>

text \<open>The methods of \<open>SyncLogic\<close> that touch the instance or the world, as operations; the
  backup and the restore come with the clock reading and with the concurrent \<open>abort()\<close>
  of that run. \<open>should_ignore\<close> and \<open>format_time\<close> are pure. \<open>run_ops\<close> applies a sequence
  of them to an instance and a world.\<close>

datatype op = OpAbort | OpLog string | OpProgress nat nat string | OpFinish bool string
  | OpEnsureDrive | OpCleanup | OpScan | OpBackup datetime "nat option" bool | OpRestore "nat option"

fun exec :: "op \<Rightarrow> logic \<times> world \<Rightarrow> logic \<times> world" where
  "exec OpAbort (l, w) = (abort l, w)"
| "exec (OpLog t) (l, w) = (log l t, w)"
| "exec (OpProgress k n t) (l, w) = (progress l k n t, w)"
| "exec (OpFinish b t) (l, w) = (finish l b t, w)"
| "exec OpEnsureDrive (l, w) = snd (ensure_drive l w)"
| "exec OpCleanup (l, w) = cleanup_old_backups l w"
| "exec OpScan (l, w) = scan_for_backups l w"
| "exec (OpBackup now abort_at silent) (l, w) =
     (case run_backup l w now abort_at silent of (l', w', r) \<Rightarrow> (l', w'))"
| "exec (OpRestore abort_at) (l, w) = run_restore l w abort_at"


subsection \<open>Vocabulary of the properties\<close>



text \<open>A path that begins with a \<open>..\<close> segment.\<close>

definition leading_dotdot :: "string \<Rightarrow> bool" where
  "leading_dotdot path = (case path_parts path of [] \<Rightarrow> False | p # ps \<Rightarrow> p = ''..'')"

text \<open>The entries a backup run collects (the list \<open>files_to_zip\<close>, which does not depend on
  \<open>silent\<close>); the conditions under which \<open>ensure_drive\<close> succeeds, and the world it leaves;
  an instance with a queue.\<close>

definition collected :: "logic \<Rightarrow> world \<Rightarrow> (string \<times> string) list" where
  "collected l w = snd (collect_files l w True (target_folders (cfg l)))"

definition drive_ready :: "logic \<Rightarrow> world \<Rightarrow> bool" where
  "drive_ready l w = (drive_path (cfg l) \<noteq> [] \<and> (storage w = None \<longrightarrow> makedirs_error w = None))"

definition made_drive :: "world \<Rightarrow> world" where
  "made_drive w = (if storage w = None then w\<lparr>storage := Some []\<rparr> else w)"

definition has_queue :: "logic \<Rightarrow> bool" where
  "has_queue l = (queue l \<noteq> None)"

text \<open>Two worlds that differ in the storage directory only, and two that differ only in what
  a backup changes: the storage directory and the trace of writes.\<close>

definition storage_only :: "world \<Rightarrow> world \<Rightarrow> bool" where
  "storage_only w w' = (w' = w\<lparr>storage := storage w'\<rparr>)"

definition backup_frame :: "world \<Rightarrow> world \<Rightarrow> bool" where
  "backup_frame w w' = (w' = w\<lparr>storage := storage w', written := written w'\<rparr>)"

subsection \<open>An example configuration and example worlds\<close>

text \<open>A configuration, and a world with three archives of one host and a stray file in the
  storage directory, a source folder \<open>.gemini\<close> and no folder \<open>.antigravity\<close>. The platform
  is POSIX-like: \<open>/\<close> separates, a path is absolute when it starts with \<open>/\<close>.\<close>

definition example_cfg :: config where
  "example_cfg = \<lparr>drive_path = ''G:/My Drive/AntigravitySync'',
     target_folders = [''.gemini'', '' .antigravity ''], retention_count = 2,
     ignore_patterns = [''__pycache__'', ''.git'', ''*.tmp'', ''*.log''],
     scheduled_times = [''09:00''], hostname = ''PC'', base_user_path = ''C:/Users/u''\<rparr>"

definition example_world :: world where
  "example_world = \<lparr>fnmatch = wildcard, isabs = (\<lambda>p. startswith p ''/''), sep = CHR ''/'',
     storage = Some [(''Antigravity_Backup_PC_20240101_000000.zip'', Zip [''.gemini/a.txt'']),
                     (''notes.txt'', Unreadable ''File is not a zip file''),
                     (''Antigravity_Backup_PC_20240103_000000.zip'',
                        Zip [''.gemini/a.txt'', ''../../evil.txt'', ''/etc/passwd'', ''.gemini/x.tmp'', ''.gemini/sub/c.txt'']),
                     (''Antigravity_Backup_PC_20240102_000000.zip'', Zip [])],
     makedirs_error = None, open_error = None, write_error = (\<lambda>f. None),
     remove_error = (\<lambda>f. None), extract_error = (\<lambda>f. None),
     source_tree = (\<lambda>f. if f = ''.gemini''
        then Some (Dir [''a.txt'', ''b.tmp''] [(''sub'', Dir [''c.txt''] []), (''__pycache__'', Dir [''z.pyc''] [])])
        else None),
     size_text = (\<lambda>f. ''0.01''), written = [], extracted = []\<rparr>"


definition empty_archive_world :: world where
  "empty_archive_world =
     example_world\<lparr>storage := Some [(''Antigravity_Backup_PC_20240102_000000.zip'', Zip [])]\<rparr>"

definition no_source_world :: world where
  "no_source_world = example_world\<lparr>source_tree := (\<lambda>f. None)\<rparr>"


text \<open>The clock readings of the scheduler's iterations over three days, around 09:00, with
  two live threads.\<close>

definition three_days :: "(datetime \<times> nat) list" where
  "three_days = [((2024, 1, 1, 8, 59, 55), 2), ((2024, 1, 1, 9, 0, 5), 2), ((2024, 1, 1, 9, 0, 15), 2),
               ((2024, 1, 1, 9, 1, 5), 2), ((2024, 1, 2, 8, 59, 55), 2), ((2024, 1, 2, 9, 0, 5), 2),
               ((2024, 1, 2, 9, 0, 15), 2), ((2024, 1, 3, 9, 0, 5), 2)]"


section \<open>Properties\<close>

subsection \<open>Properties of the path filter\<close>



lemma split_on_nonempty: "split_on d s \<noteq> []"
  by (induction s) (auto split: list.splits)

text \<open>The pieces of a split contain no separator, and joining them with the separator gives
  the string back: the split is the segmentation of the path.\<close>

lemma split_on_no_sep: "seg \<in> set (split_on d s) \<Longrightarrow> d \<notin> set seg"
  by (induction s arbitrary: seg) (auto split: if_splits list.splits)

lemma join_split_on: "join_with d (split_on d s) = s"
proof (induction s)
  case Nil
  show ?case by simp
next
  case (Cons c cs)
  obtain p ps where sp: "split_on d cs = p # ps"
    using split_on_nonempty [of d cs] by (cases "split_on d cs") auto
  show ?case
  proof (cases "c = d")
    case True
    with Cons sp show ?thesis by simp
  next
    case False
    with Cons sp show ?thesis by (cases ps) auto
  qed
qed



subsection \<open>Archive names and their order\<close>


lemma eq_iff_of_less_iff:
  fixes a b :: "'a::linorder" and f :: "'a \<Rightarrow> 'b::linorder"
  assumes "f a < f b \<longleftrightarrow> a < b" "f b < f a \<longleftrightarrow> b < a"
  shows "f a = f b \<longleftrightarrow> a = b"
  using assms by (cases a b rule: linorder_cases) auto

lemma less_prod_lex:
  "(a, b) < (c, d) \<longleftrightarrow> a < c \<or> (a = c \<and> b < d)" for a c :: "'a::linorder" and b d :: "'b::linorder"
  by (auto simp: less_prod_def)

lemma lex_base10:
  fixes q1 r1 q2 r2 :: nat
  assumes "r1 < 10" "r2 < 10"
  shows "(q1 < q2 \<or> (q1 = q2 \<and> r1 < r2)) \<longleftrightarrow> 10 * q1 + r1 < 10 * q2 + r2"
  using assms by arith

lemma lex_base100:
  fixes q1 r1 q2 r2 :: nat
  assumes "r1 < 100" "r2 < 100"
  shows "(q1 < q2 \<or> (q1 = q2 \<and> r1 < r2)) \<longleftrightarrow> 100 * q1 + r1 < 100 * q2 + r2"
  using assms by arith

lemma of_char_digit: "a < 10 \<Longrightarrow> (of_char (digit_char a) :: nat) = 48 + a"
  by (simp add: digit_char_def)

lemma digit_char_less: "a < 10 \<Longrightarrow> b < 10 \<Longrightarrow> digit_char a < digit_char b \<longleftrightarrow> a < b"
  by (simp add: less_char_def of_char_digit)

lemma digit_char_eq: "a < 10 \<Longrightarrow> b < 10 \<Longrightarrow> digit_char a = digit_char b \<longleftrightarrow> a = b"
  by (rule eq_iff_of_less_iff) (simp_all add: digit_char_less)

lemma append_less_same_length:
  "length a = length b \<Longrightarrow> a @ x < b @ y \<longleftrightarrow> a < b \<or> (a = b \<and> x < y)"
  for a b :: "'a::linorder list"
  by (induction a b rule: list_induct2) auto

lemma two_digits_less: 
  assumes "m < 100" "n < 100" 
  shows "two_digits m < two_digits n \<longleftrightarrow> m < n"
proof -
  have d: "m div 10 mod 10 = m div 10" "n div 10 mod 10 = n div 10" using assms by simp_all
  have b: "m div 10 < 10" "n div 10 < 10" "m mod 10 < 10" "n mod 10 < 10" using assms by simp_all
  have "two_digits m < two_digits n \<longleftrightarrow>
        m div 10 < n div 10 \<or> (m div 10 = n div 10 \<and> m mod 10 < n mod 10)"
    using b by (simp add: two_digits_def d digit_char_less digit_char_eq)
  also have "\<dots> \<longleftrightarrow> 10 * (m div 10) + m mod 10 < 10 * (n div 10) + n mod 10"
    by (rule lex_base10) (rule b)+
  also have "\<dots> \<longleftrightarrow> m < n"
    by (simp only: mult_div_mod_eq)
  finally show ?thesis .
qed

lemma two_digits_eq: "m < 100 \<Longrightarrow> n < 100 \<Longrightarrow> two_digits m = two_digits n \<longleftrightarrow> m = n"
  by (rule eq_iff_of_less_iff) (simp_all add: two_digits_less)

lemma length_two_digits: "length (two_digits n) = 2"
  by (simp add: two_digits_def)

lemma four_digits_less:
  assumes "m < 10000" "n < 10000"
  shows "four_digits m < four_digits n \<longleftrightarrow> m < n"
proof -
  have b: "m div 100 < 100" "n div 100 < 100" "m mod 100 < 100" "n mod 100 < 100"
    using assms by simp_all
  have "four_digits m < four_digits n \<longleftrightarrow>
        m div 100 < n div 100 \<or> (m div 100 = n div 100 \<and> m mod 100 < n mod 100)"
    using b by (simp add: four_digits_def append_less_same_length length_two_digits
        two_digits_less two_digits_eq)
  also have "\<dots> \<longleftrightarrow> 100 * (m div 100) + m mod 100 < 100 * (n div 100) + n mod 100"
    by (rule lex_base100) (rule b)+
  also have "\<dots> \<longleftrightarrow> m < n"
    by (simp only: mult_div_mod_eq)
  finally show ?thesis .
qed

lemma four_digits_eq: "m < 10000 \<Longrightarrow> n < 10000 \<Longrightarrow> four_digits m = four_digits n \<longleftrightarrow> m = n"
  by (rule eq_iff_of_less_iff) (simp_all add: four_digits_less)

lemma length_four_digits: "length (four_digits n) = 4"
  by (simp add: four_digits_def length_two_digits)

lemma strftime_stamp_less:
  assumes "valid_datetime s" "valid_datetime t"
  shows "strftime_stamp s < strftime_stamp t \<longleftrightarrow> s < t"
proof -
  obtain y1 mo1 d1 h1 mi1 s1 where s: "s = (y1, mo1, d1, h1, mi1, s1)" by (cases s) auto
  obtain y2 mo2 d2 h2 mi2 s2 where t: "t = (y2, mo2, d2, h2, mi2, s2)" by (cases t) auto
  have b: "y1 < 10000" "y2 < 10000" "mo1 < 100" "mo2 < 100" "d1 < 100" "d2 < 100"
    "h1 < 100" "h2 < 100" "mi1 < 100" "mi2 < 100" "s1 < 100" "s2 < 100"
    using assms by (simp_all add: valid_datetime_def s t)
  show ?thesis
    unfolding s t strftime_stamp_def prod.case less_prod_lex
    using b
    by (simp add: append_less_same_length length_two_digits length_four_digits
        two_digits_less two_digits_eq four_digits_less four_digits_eq)
qed

lemma length_strftime_stamp: "length (strftime_stamp t) = 15"
  by (cases t) (simp add: strftime_stamp_def length_two_digits length_four_digits)

lemma append_less_prefix: "p @ a < p @ b \<longleftrightarrow> a < b" for a b :: "'a::linorder list"
  by (induction p) auto

lemma archive_name_less:
  assumes "valid_datetime s" "valid_datetime t"
  shows "archive_name host s < archive_name host t \<longleftrightarrow> s < t"
proof -
  have "archive_name host s < archive_name host t \<longleftrightarrow>
        strftime_stamp s @ ''.zip'' < strftime_stamp t @ ''.zip''"
    unfolding archive_name_def
    by (simp only: append_less_prefix append_assoc)
  also have "\<dots> \<longleftrightarrow> strftime_stamp s < strftime_stamp t"
    by (simp add: append_less_same_length length_strftime_stamp)
  finally show ?thesis
    by (simp add: strftime_stamp_less assms)
qed

lemma insort_map_mono:
  fixes f :: "'a::linorder \<Rightarrow> 'b::linorder"
  assumes "\<forall>a \<in> insert x (set ys). \<forall>b \<in> insert x (set ys). f a \<le> f b \<longleftrightarrow> a \<le> b"
  shows "insort (f x) (map f ys) = map f (insort x ys)"
  using assms by (induction ys) auto

lemma sort_map_mono:
  fixes f :: "'a::linorder \<Rightarrow> 'b::linorder"
  assumes "\<forall>a \<in> set xs. \<forall>b \<in> set xs. f a \<le> f b \<longleftrightarrow> a \<le> b"
  shows "sort (map f xs) = map f (sort xs)"
  using assms
proof (induction xs)
  case Nil
  show ?case by simp
next
  case (Cons x xs)
  have "sort (map f (x # xs)) = insort (f x) (map f (sort xs))"
    using Cons by simp
  also have "\<dots> = map f (insort x (sort xs))"
    by (rule insort_map_mono) (use Cons.prems in simp)
  finally show ?case by simp
qed

lemma archive_name_le:
  assumes "valid_datetime s" "valid_datetime t"
  shows "archive_name host s \<le> archive_name host t \<longleftrightarrow> s \<le> t"
  using archive_name_less [OF assms(2) assms(1), of host] by (simp add: not_less [symmetric])

lemma sorted_le_last:
  fixes xs :: "'a::linorder list"
  shows "sorted xs \<Longrightarrow> y \<in> set xs \<Longrightarrow> y \<le> last xs"
  by (induction xs) auto

lemma last_sort_Max:
  fixes xs :: "'a::linorder list"
  assumes "xs \<noteq> []"
  shows "last (sort xs) = Max (set xs)"
proof -
  have ne: "sort xs \<noteq> []" using assms by (metis length_sort length_0_conv)
  have "Max (set (sort xs)) = last (sort xs)"
  proof (rule Max_eqI)
    show "finite (set (sort xs))" by simp
    show "last (sort xs) \<in> set (sort xs)" using ne by (rule last_in_set)
    fix y assume "y \<in> set (sort xs)"
    then show "y \<le> last (sort xs)" by (rule sorted_le_last [OF sorted_sort])
  qed
  then show ?thesis by simp
qed

lemma rev_sort_Max:
  fixes xs :: "'a::linorder list"
  assumes "xs \<noteq> []"
  shows "rev (sort xs) = Max (set xs) # rev (butlast (sort xs))"
proof -
  have ne: "sort xs \<noteq> []" using assms by (metis length_sort length_0_conv)
  have "rev (sort xs) = rev (butlast (sort xs) @ [last (sort xs)])"
    using ne by simp
  also have "\<dots> = last (sort xs) # rev (butlast (sort xs))"
    by simp
  finally show ?thesis by (simp add: last_sort_Max assms)
qed

text \<open>
  Claim C3, as amended. For archives written under one hostname at valid clock readings with a
  four-digit year, sorting the file names in descending lexicographic order lists the archives
  in descending chronological order, and the name \<open>run_restore\<close> selects as the latest backup
  is the name of the newest reading.
\<close>

theorem archive_order_same_host:
  assumes "\<forall>t \<in> set ts. valid_datetime t"
  shows "sort_reverse (map (archive_name host) ts) = map (archive_name host) (rev (sort ts))
     \<and> (ts \<noteq> [] \<longrightarrow>
          latest_backup (map (archive_name host) ts) = Some (archive_name host (Max (set ts))))"
proof -
  have mono: "\<forall>a \<in> set ts. \<forall>b \<in> set ts.
      archive_name host a \<le> archive_name host b \<longleftrightarrow> a \<le> b"
    using assms by (simp add: archive_name_le)
  have srt: "sort_reverse (map (archive_name host) ts) = map (archive_name host) (rev (sort ts))"
    unfolding sort_reverse_def by (simp add: sort_map_mono [OF mono] rev_map)
  have "latest_backup (map (archive_name host) ts) = Some (archive_name host (Max (set ts)))"
    if ne: "ts \<noteq> []"
    by (simp add: latest_backup_def srt rev_sort_Max [OF ne])
  with srt show ?thesis by blast
qed

theorem archive_order_same_host_witness:
  "valid_datetime (2024, 1, 2, 9, 0, 5) \<and> valid_datetime (2024, 11, 30, 23, 59, 59)
   \<and> valid_datetime (2023, 12, 31, 8, 30, 0)
   \<and> sort_reverse (map (archive_name ''PC'') [(2024, 1, 2, 9, 0, 5), (2024, 11, 30, 23, 59, 59), (2023, 12, 31, 8, 30, 0)])
       = map (archive_name ''PC'') [(2024, 11, 30, 23, 59, 59), (2024, 1, 2, 9, 0, 5), (2023, 12, 31, 8, 30, 0)]
   \<and> latest_backup (map (archive_name ''PC'') [(2024, 1, 2, 9, 0, 5), (2024, 11, 30, 23, 59, 59), (2023, 12, 31, 8, 30, 0)])
       = Some (archive_name ''PC'' (2024, 11, 30, 23, 59, 59))"
proof -
  let ?ts = "[(2024, 1, 2, 9, 0, 5), (2024, 11, 30, 23, 59, 59), (2023, 12, 31, 8, 30, 0)] :: datetime list"
  have v: "\<forall>t \<in> set ?ts. valid_datetime t"
    by (simp add: valid_datetime_def)
  have s: "rev (sort ?ts) = [(2024, 11, 30, 23, 59, 59), (2024, 1, 2, 9, 0, 5), (2023, 12, 31, 8, 30, 0)]"
    by (simp add: less_eq_prod_def)
  have m: "Max (set ?ts) = (2024, 11, 30, 23, 59, 59)"
    by (simp add: max_def less_eq_prod_def)
  from archive_order_same_host [OF v, of "''PC''"] v show ?thesis
    unfolding s m by simp
qed

text \<open>
  The claim as stated covers every set of names of the naming scheme, and the scheme puts the
  hostname before the timestamp: with two hostnames the older archive can sort first.
\<close>

theorem archive_order_counterexample:
  "valid_datetime (2020, 1, 1, 0, 0, 0) \<and> valid_datetime (2025, 1, 1, 0, 0, 0)
   \<and> ((2020, 1, 1, 0, 0, 0) :: datetime) < (2025, 1, 1, 0, 0, 0)
   \<and> sort_reverse [archive_name ''ALPHA'' (2025, 1, 1, 0, 0, 0), archive_name ''ZEBRA'' (2020, 1, 1, 0, 0, 0)]
       = [archive_name ''ZEBRA'' (2020, 1, 1, 0, 0, 0), archive_name ''ALPHA'' (2025, 1, 1, 0, 0, 0)]
   \<and> latest_backup [archive_name ''ALPHA'' (2025, 1, 1, 0, 0, 0), archive_name ''ZEBRA'' (2020, 1, 1, 0, 0, 0)]
       = Some (archive_name ''ZEBRA'' (2020, 1, 1, 0, 0, 0))"
proof -
  have lt: "archive_name ''ALPHA'' (2025, 1, 1, 0, 0, 0) < archive_name ''ZEBRA'' (2020, 1, 1, 0, 0, 0)"
    by (simp add: archive_name_def file_prefix_str_def)
  then have le: "archive_name ''ALPHA'' (2025, 1, 1, 0, 0, 0) \<le> archive_name ''ZEBRA'' (2020, 1, 1, 0, 0, 0)"
    by (rule less_imp_le)
  have s: "sort_reverse [archive_name ''ALPHA'' (2025, 1, 1, 0, 0, 0), archive_name ''ZEBRA'' (2020, 1, 1, 0, 0, 0)]
       = [archive_name ''ZEBRA'' (2020, 1, 1, 0, 0, 0), archive_name ''ALPHA'' (2025, 1, 1, 0, 0, 0)]"
    unfolding sort_reverse_def using le by simp
  show ?thesis
    unfolding latest_backup_def s
    by (simp add: valid_datetime_def less_prod_def)
qed

subsection \<open>Retention pruning\<close>

lemma entries_storage_update:
  "entries (w\<lparr>storage := map_option g (storage w)\<rparr>) = (case storage w of None \<Rightarrow> [] | Some es \<Rightarrow> g es)"
  by (simp add: entries_def split: option.splits)

lemma storage_only_refl [simp]: "storage_only w w"
  by (simp add: storage_only_def)

lemma storage_only_update [simp]: "storage_only w (w\<lparr>storage := s\<rparr>)"
  by (simp add: storage_only_def)

lemma storage_only_trans: "storage_only w w' \<Longrightarrow> storage_only w' w'' \<Longrightarrow> storage_only w w''"
  unfolding storage_only_def by (metis world.update_convs(4) world.surjective world.select_convs(4))

lemma storage_only_fields:
  assumes "storage_only w w'"
  shows "fnmatch w' = fnmatch w" "isabs w' = isabs w" "sep w' = sep w"
    "makedirs_error w' = makedirs_error w" "open_error w' = open_error w"
    "write_error w' = write_error w" "remove_error w' = remove_error w"
    "extract_error w' = extract_error w" "source_tree w' = source_tree w"
    "size_text w' = size_text w" "written w' = written w" "extracted w' = extracted w"
proof -
  have e: "w' = w\<lparr>storage := storage w'\<rparr>" using assms by (simp add: storage_only_def)
  show "fnmatch w' = fnmatch w" by (subst e) simp
  show "isabs w' = isabs w" by (subst e) simp
  show "sep w' = sep w" by (subst e) simp
  show "makedirs_error w' = makedirs_error w" by (subst e) simp
  show "open_error w' = open_error w" by (subst e) simp
  show "write_error w' = write_error w" by (subst e) simp
  show "remove_error w' = remove_error w" by (subst e) simp
  show "extract_error w' = extract_error w" by (subst e) simp
  show "source_tree w' = source_tree w" by (subst e) simp
  show "size_text w' = size_text w" by (subst e) simp
  show "written w' = written w" by (subst e) simp
  show "extracted w' = extracted w" by (subst e) simp
qed


lemma os_remove_storage_only: "storage_only w (snd (os_remove w f))"
  by (simp add: os_remove_def split: option.splits)


lemma delete_loop_storage_only: "storage_only w (snd (delete_loop l w fs))"
proof (induction fs arbitrary: l w)
  case Nil
  show ?case by simp
next
  case (Cons f fs)
  obtain e w1 where r: "os_remove w f = (e, w1)" by (cases "os_remove w f")
  have 1: "storage_only w w1" using os_remove_storage_only [of w f] r by simp
  show ?case
    using storage_only_trans [OF 1 Cons.IH [where w = w1]] r
    by (cases e) simp_all
qed





lemma cleanup_storage_only:
  "storage_only w (snd (cleanup_old_backups l w))"
  by (simp add: cleanup_old_backups_def Let_def delete_loop_storage_only)




lemma set_sort_reverse [simp]: "set (sort_reverse xs) = set xs"
  by (simp add: sort_reverse_def)






subsection \<open>The restore never extracts a member that escapes the target root\<close>

lemma cfg_log [simp]: "cfg (log l t) = cfg l"
  by (simp add: log_def split: option.splits)
lemma cfg_progress [simp]: "cfg (progress l k n t) = cfg l"
  by (simp add: progress_def split: option.splits)
lemma cfg_finish [simp]: "cfg (finish l b t) = cfg l"
  by (simp add: finish_def split: option.splits)
lemma stop_log [simp]: "stop_requested (log l t) = stop_requested l"
  by (simp add: log_def split: option.splits)
lemma stop_progress [simp]: "stop_requested (progress l k n t) = stop_requested l"
  by (simp add: progress_def split: option.splits)
lemma stop_finish [simp]: "stop_requested (finish l b t) = stop_requested l"
  by (simp add: finish_def split: option.splits)
lemma stop_seen_log [simp]: "stop_seen (log l t) a i = stop_seen l a i"
  by (simp add: stop_seen_def)
lemma stop_seen_progress [simp]: "stop_seen (progress l k n t) a i = stop_seen l a i"
  by (simp add: stop_seen_def)

lemma ensure_drive_storage_only: "storage_only w (snd (snd (ensure_drive l w)))"
  by (simp add: ensure_drive_def split: option.splits)

lemma hd_split_on: "hd (split_on d s) = takeWhile (\<lambda>c. c \<noteq> d) s"
  using split_on_nonempty [of d] by (induction s) (auto split: list.splits)

lemma leading_dotdot_startswith:
  assumes "leading_dotdot m"
  shows "startswith m ''..''"
proof -
  let ?r = "replace_char backslash (CHR ''/'') m"
  have "hd (split_on (CHR ''/'') ?r) = ''..''"
    using assms split_on_nonempty [of "CHR ''/''" ?r]
    by (cases "split_on (CHR ''/'') ?r") (simp_all add: leading_dotdot_def path_parts_def)
  then have t: "takeWhile (\<lambda>c. c \<noteq> CHR ''/'') ?r = ''..''"
    by (simp add: hd_split_on)
  then obtain c1 c2 rest where m: "m = c1 # c2 # rest"
    by (cases m; cases "tl m") (auto simp: replace_char_def split: if_splits)
  from t have "c1 = CHR ''.'' \<and> c2 = CHR ''.''"
    unfolding m by (auto simp: replace_char_def backslash_def split: if_splits)
  then show ?thesis by (simp add: m)
qed

lemma extract_loop_count:
  assumes "startswith m ''..'' \<or> isabs w m"
  shows "count_list (extracted (fst (snd (extract_loop a n l w idx ms)))) m = count_list (extracted w) m"
  using assms
proof (induction ms arbitrary: l w idx)
  case Nil
  show ?case by simp
next
  case (Cons f ms)
  have ext: "count_list (extracted (fst (snd (extract_loop a n l' (w\<lparr>extracted := extracted w @ [f]\<rparr>) i ms)))) m
      = count_list (extracted w) m" if "f \<noteq> m" for l' i
    using Cons.IH [of "w\<lparr>extracted := extracted w @ [f]\<rparr>" l' i] Cons.prems that by simp
  show ?case
    using Cons.IH [OF Cons.prems] ext Cons.prems
    by (auto simp: Let_def split: option.splits extract_failure.splits)
qed


lemma extract_loop_countD:
  assumes "extract_loop a n l w idx ms = (l', w', e)" "startswith m ''..'' \<or> isabs w m"
  shows "count_list (extracted w') m = count_list (extracted w) m"
  using extract_loop_count [OF assms(2), of a n l idx ms] assms(1) by simp

lemma ensure_drive_fieldsD:
  assumes "ensure_drive l w = (b, l2, w2)"
  shows "extracted w2 = extracted w" "isabs w2 = isabs w" "fnmatch w2 = fnmatch w"
    "written w2 = written w" "extract_error w2 = extract_error w"
proof -
  have "storage_only w w2" using ensure_drive_storage_only [of w l] assms by simp
  then show "extracted w2 = extracted w" "isabs w2 = isabs w" "fnmatch w2 = fnmatch w"
    "written w2 = written w" "extract_error w2 = extract_error w"
    by (simp_all add: storage_only_fields)
qed

lemma run_restore_count:
  assumes "startswith m ''..'' \<or> isabs w m"
  shows "count_list (extracted (snd (run_restore l w a))) m = count_list (extracted w) m"
proof -
  obtain b l2 w2 where ed: "ensure_drive (log l ''--- Starting RESTORE ---'') w = (b, l2, w2)"
    by (cases "ensure_drive (log l ''--- Starting RESTORE ---'') w")
  have f: "extracted w2 = extracted w" "isabs w2 = isabs w"
    by (rule ensure_drive_fieldsD [OF ed])+
  have g: "startswith m ''..'' \<or> isabs w2 m" using assms f by simp
  show ?thesis
    unfolding run_restore_def Let_def ed
    using f(1) extract_loop_countD [OF _ g]
    by (auto split: option.splits content.splits prod.splits loop_end.splits bool.splits)
qed

text \<open>
  Claim C1. A member of the selected archive whose path is absolute (as \<open>os.path.isabs\<close>
  says) or begins with a \<open>..\<close> segment is never extracted: however the restore runs, the
  trace of \<open>zf.extract\<close> calls holds it as often after the run as before. The extraction loop
  passes over such a member without an event or an error: its run on the member and the rest
  is its run on the rest.
\<close>

theorem restore_skips_traversal_members:
  assumes "isabs w m \<or> leading_dotdot m"
  shows "count_list (extracted (snd (run_restore l w abort_at))) m = count_list (extracted w) m
     \<and> (\<not> stop_seen l abort_at idx \<longrightarrow>
          extract_loop abort_at n l w idx (m # rest) = extract_loop abort_at n l w (idx + 1) rest)"
proof -
  have g: "startswith m ''..'' \<or> isabs w m"
    using assms leading_dotdot_startswith by blast
  then show ?thesis
    by (auto simp: run_restore_count)
qed

theorem restore_skips_traversal_members_witness:
  "(isabs example_world ''../../evil.txt'' \<or> leading_dotdot ''../../evil.txt'')
   \<and> latest_backup (glob_archives example_world) = Some ''Antigravity_Backup_PC_20240103_000000.zip''
   \<and> map_of (entries example_world) ''Antigravity_Backup_PC_20240103_000000.zip''
        = Some (Zip [''.gemini/a.txt'', ''../../evil.txt'', ''/etc/passwd'', ''.gemini/x.tmp'', ''.gemini/sub/c.txt''])
   \<and> count_list (extracted (snd (run_restore (init_logic example_cfg (Some [])) example_world None)))
        ''../../evil.txt'' = 0
   \<and> extracted (snd (run_restore (init_logic example_cfg (Some [])) example_world None))
        = [''.gemini/a.txt'', ''.gemini/sub/c.txt'']"
proof -
  have h: "isabs example_world ''../../evil.txt'' \<or> leading_dotdot ''../../evil.txt''"
    by (simp add: leading_dotdot_def path_parts_def replace_char_def backslash_def)
  have e: "extracted example_world = []" by (simp add: example_world_def)
  have l: "latest_backup (glob_archives example_world) = Some ''Antigravity_Backup_PC_20240103_000000.zip''"
    by code_simp
  have m: "map_of (entries example_world) ''Antigravity_Backup_PC_20240103_000000.zip''
        = Some (Zip [''.gemini/a.txt'', ''../../evil.txt'', ''/etc/passwd'', ''.gemini/x.tmp'', ''.gemini/sub/c.txt''])"
    by code_simp
  have x: "extracted (snd (run_restore (init_logic example_cfg (Some [])) example_world None))
        = [''.gemini/a.txt'', ''.gemini/sub/c.txt'']"
    by code_simp
  from restore_skips_traversal_members [OF h, of "init_logic example_cfg (Some [])" None 0 0 "[]"]
  show ?thesis using h l m x by (simp add: e)
qed

subsection \<open>Restore of an archive without members\<close>

lemma queue_log: "queue (log l t) = map_option (\<lambda>q. q @ [Log t]) (queue l)"
  by (simp add: log_def split: option.splits)
lemma queue_progress: "queue (progress l k n t) = map_option (\<lambda>q. q @ [Progress k n t]) (queue l)"
  by (simp add: progress_def split: option.splits)
lemma queue_finish: "queue (finish l b t) = map_option (\<lambda>q. q @ [Finish b t]) (queue l)"
  by (simp add: finish_def split: option.splits)

lemma ensure_drive_present:
  "drive_path (cfg l) \<noteq> [] \<Longrightarrow> storage w = Some es \<Longrightarrow> ensure_drive l w = (True, l, w)"
  by (simp add: ensure_drive_def)

text \<open>
  Claim C10, as amended. If the selected latest archive contains zero members, neither loop
  body runs, so nothing is divided by the member count and nothing is extracted: the run
  reports success, its last event is \<open>finish(True, "Restore Complete")\<close>, whether or not
  cancellation was requested.
\<close>

theorem restore_empty_archive_reports_success:
  assumes "drive_path (cfg l) \<noteq> []"
    and "latest_backup (glob_archives w) = Some f"
    and "map_of (entries w) f = Some (Zip [])"
  shows "snd (run_restore l w abort_at) = w
     \<and> queue (fst (run_restore l w abort_at)) =
         map_option (\<lambda>q. q @ [Log ''--- Starting RESTORE ---'',
                               Log (''Found latest backup: '' @ f),
                               Log ''Analyzing archive...'',
                               Log (''[SUCCESS] Restore completed from '' @ f),
                               Finish True ''Restore Complete'']) (queue l)"
proof -
  have "entries w \<noteq> []" using assms(3) by auto
  then obtain es where st: "storage w = Some es" by (auto simp: entries_def split: option.splits)
  have ed: "ensure_drive (log l ''--- Starting RESTORE ---'') w
      = (True, log l ''--- Starting RESTORE ---'', w)"
    using assms(1) by (intro ensure_drive_present [OF _ st]) simp
  have r: "run_restore l w abort_at =
      (finish (log (log (log (log l ''--- Starting RESTORE ---'') (''Found latest backup: '' @ f))
                  ''Analyzing archive...'') (''[SUCCESS] Restore completed from '' @ f))
         True ''Restore Complete'', w)"
    by (simp add: run_restore_def ed assms(2,3))
  show ?thesis
    unfolding r by (simp add: queue_log queue_finish option.map_comp comp_def)
qed

theorem restore_empty_archive_reports_success_witness:
  "drive_path (cfg (init_logic example_cfg (Some []))) \<noteq> []
   \<and> latest_backup (glob_archives empty_archive_world) = Some ''Antigravity_Backup_PC_20240102_000000.zip''
   \<and> map_of (entries empty_archive_world) ''Antigravity_Backup_PC_20240102_000000.zip'' = Some (Zip [])
   \<and> queue (fst (run_restore (abort (init_logic example_cfg (Some []))) empty_archive_world None)) =
        Some [Log ''--- Starting RESTORE ---'',
              Log ''Found latest backup: Antigravity_Backup_PC_20240102_000000.zip'',
              Log ''Analyzing archive...'',
              Log ''[SUCCESS] Restore completed from Antigravity_Backup_PC_20240102_000000.zip'',
              Finish True ''Restore Complete'']"
proof -
  let ?l = "abort (init_logic example_cfg (Some []))"
  have h1: "drive_path (cfg ?l) \<noteq> []" by (simp add: abort_def init_logic_def example_cfg_def)
  have h1': "drive_path (cfg (init_logic example_cfg (Some []))) \<noteq> []"
    by (simp add: init_logic_def example_cfg_def)
  have h2: "latest_backup (glob_archives empty_archive_world) = Some ''Antigravity_Backup_PC_20240102_000000.zip''"
    by code_simp
  have h3: "map_of (entries empty_archive_world) ''Antigravity_Backup_PC_20240102_000000.zip'' = Some (Zip [])"
    by code_simp
  have q: "queue ?l = Some []" by (simp add: abort_def init_logic_def)
  from restore_empty_archive_reports_success [OF h1 h2 h3, of None]
  show ?thesis using h1' h2 h3 by (simp add: q)
qed

text \<open>
  The claim as stated says that the run on an empty archive ends with a
  \<open>finish(False, message)\<close> event. It ends with \<open>finish(True, "Restore Complete")\<close>.
\<close>

theorem restore_empty_archive_counterexample:
  "latest_backup (glob_archives empty_archive_world) = Some ''Antigravity_Backup_PC_20240102_000000.zip''
   \<and> map_of (entries empty_archive_world) ''Antigravity_Backup_PC_20240102_000000.zip'' = Some (Zip [])
   \<and> events (fst (run_restore (init_logic example_cfg (Some [])) empty_archive_world None)) =
        [Log ''--- Starting RESTORE ---'',
         Log ''Found latest backup: Antigravity_Backup_PC_20240102_000000.zip'',
         Log ''Analyzing archive...'',
         Log ''[SUCCESS] Restore completed from Antigravity_Backup_PC_20240102_000000.zip'',
         Finish True ''Restore Complete'']"
  by code_simp

subsection \<open>The scheduler\<close>

lemma scheduler_step_same_minute:
  "strftime_hm now = last_run_minute s \<Longrightarrow> scheduler_step c s (now, n) = s"
  by (simp add: scheduler_step_def)

lemma scheduler_step_single:
  assumes "scheduled_times c = [t]"
    and "length (started s) \<le> 1" and "last_run_minute s \<noteq> t \<longrightarrow> started s = []"
  shows "length (started (scheduler_step c s tick)) \<le> 1
     \<and> (last_run_minute (scheduler_step c s tick) \<noteq> t \<longrightarrow> started (scheduler_step c s tick) = [])"
  using assms by (cases tick) (auto simp: scheduler_step_def Let_def)

lemma scheduler_foldl_single:
  assumes "scheduled_times c = [t]"
    and "length (started s) \<le> 1" and "last_run_minute s \<noteq> t \<longrightarrow> started s = []"
  shows "length (started (foldl (scheduler_step c) s ticks)) \<le> 1"
  using assms(2,3)
proof (induction ticks arbitrary: s)
  case Nil
  then show ?case by simp
next
  case (Cons tick ticks)
  have "length (started (scheduler_step c s tick)) \<le> 1
     \<and> (last_run_minute (scheduler_step c s tick) \<noteq> t \<longrightarrow> started (scheduler_step c s tick) = [])"
    by (rule scheduler_step_single [OF assms(1) Cons.prems])
  then show ?case using Cons.IH by simp
qed

lemma scheduler_single_time_at_most_one_start:
  "scheduled_times c = [t] \<Longrightarrow> length (started (scheduler_loop c ticks)) \<le> 1"
  unfolding scheduler_loop_def by (rule scheduler_foldl_single) simp_all

text \<open>
  Claim C7. The scheduler records the minute it fired in \<open>last_run_minute\<close> and does not fire
  again while the clock shows that minute; but \<open>last_run_minute\<close> only changes when a trigger
  fires, so with one scheduled time the value never re-arms. With \<open>scheduled_times = ["09:00"]\<close>
  the loop starts one backup on the first day and none when the clock returns to 09:00 on the
  second and third day.
\<close>

theorem scheduler_fires_once_over_three_days:
  "scheduled_times example_cfg = [''09:00'']
   \<and> map (\<lambda>tick. strftime_hm (fst tick)) three_days
        = [''08:59'', ''09:00'', ''09:00'', ''09:01'', ''08:59'', ''09:00'', ''09:00'', ''09:00'']
   \<and> started (scheduler_loop example_cfg three_days) = [''09:00'']
   \<and> started (scheduler_loop example_cfg (take 2 three_days)) = [''09:00'']
   \<and> last_run_minute (scheduler_loop example_cfg three_days) = ''09:00''"
  by code_simp


subsection \<open>Backup runs\<close>

text \<open>
  Claim C8. \<open>run_backup\<close> returns \<open>True\<close> on a completed backup and \<open>False\<close> from its exception
  handler, but the three early exits (drive not available, no files found, cancelled) are bare
  \<open>return\<close> statements: there the function returns \<open>None\<close>, not \<open>False\<close>.
\<close>

theorem run_backup_returns_none:
  "snd (snd (run_backup (init_logic (example_cfg\<lparr>drive_path := []\<rparr>) (Some []))
               example_world (2024, 1, 4, 9, 0, 0) None False)) = None
   \<and> events (fst (run_backup (init_logic (example_cfg\<lparr>drive_path := []\<rparr>) (Some []))
               example_world (2024, 1, 4, 9, 0, 0) None False))
       = [Log ''--- Starting BACKUP (PC) ---'', Log ''ERROR: Drive path is not configured.'',
          Finish False ''Drive not available'']
   \<and> snd (snd (run_backup (init_logic example_cfg (Some []))
               no_source_world (2024, 1, 4, 9, 0, 0) None False)) = None
   \<and> last (events (fst (run_backup (init_logic example_cfg (Some []))
               no_source_world (2024, 1, 4, 9, 0, 0) None False))) = Finish False ''No files found''
   \<and> snd (snd (run_backup (init_logic example_cfg (Some []))
               example_world (2024, 1, 4, 9, 0, 0) (Some 1) False)) = None
   \<and> last (events (fst (run_backup (init_logic example_cfg (Some []))
               example_world (2024, 1, 4, 9, 0, 0) (Some 1) False))) = Finish False ''Cancelled''
   \<and> snd (snd (run_backup (init_logic example_cfg (Some []))
               (example_world\<lparr>open_error := Some ''Permission denied''\<rparr>) (2024, 1, 4, 9, 0, 0) None False)) = Some False
   \<and> snd (snd (run_backup (init_logic example_cfg (Some []))
               example_world (2024, 1, 4, 9, 0, 0) None False)) = Some True"
  by code_simp

lemma unless_silent_simps [simp]:
  "unless_silent True f l = l" "unless_silent False f l = f l"
  by (simp_all add: unless_silent_def)

lemma cfg_unless_silent: "(\<And>la. cfg (f la) = cfg la) \<Longrightarrow> cfg (unless_silent s f l) = cfg l"
  by (simp add: unless_silent_def)

lemma has_queue_log [simp]: "has_queue (log l t) = has_queue l"
  by (simp add: has_queue_def queue_log)
lemma has_queue_progress [simp]: "has_queue (progress l k n t) = has_queue l"
  by (simp add: has_queue_def queue_progress)
lemma has_queue_finish [simp]: "has_queue (finish l b t) = has_queue l"
  by (simp add: has_queue_def queue_finish)
lemma has_queue_stop [simp]: "has_queue (l\<lparr>stop_requested := b\<rparr>) = has_queue l"
  by (simp add: has_queue_def)

lemma events_finish: "has_queue l \<Longrightarrow> events (finish l b t) = events l @ [Finish b t]"
  by (auto simp: has_queue_def events_def finish_def)

lemma last_events_finish:
  "has_queue l \<Longrightarrow> events (finish l b t) \<noteq> [] \<and> last (events (finish l b t)) = Finish b t"
  by (simp add: events_finish)

text \<open>Without a drive path the backup returns by the first bare \<open>return\<close>, whatever else
  the world holds.\<close>

lemma run_backup_drive_unavailable:
  assumes "drive_path (cfg l) = []"
  shows "snd (snd (run_backup l w now a silent)) = None"
  using assms by (cases silent) (simp_all add: run_backup_def ensure_drive_def Let_def)

lemma walk_frame:
  assumes "fnmatch w' = fnmatch w" "sep w' = sep w"
  shows "walk w' c root arc t = walk w c root arc t"
    and "walk_dirs w' c root arc ds = walk_dirs w c root arc ds"
  using assms
  by (induction w c root arc t and w c root arc ds rule: walk_walk_dirs.induct) simp_all

lemma cfg_collect_files [simp]: "cfg (fst (collect_files l w silent fs)) = cfg l"
  by (induction fs arbitrary: l)
     (simp_all add: Let_def case_prod_unfold unless_silent_def split: option.splits)

lemma stop_collect_files [simp]:
  "stop_requested (fst (collect_files l w silent fs)) = stop_requested l"
  by (induction fs arbitrary: l)
     (simp_all add: Let_def case_prod_unfold unless_silent_def split: option.splits)

lemma has_queue_collect_files [simp]:
  "has_queue (fst (collect_files l w silent fs)) = has_queue l"
  by (induction fs arbitrary: l)
     (simp_all add: Let_def case_prod_unfold unless_silent_def split: option.splits)

lemma collect_files_silent [simp]: "fst (collect_files l w True fs) = l"
  by (induction fs arbitrary: l)
     (simp_all add: Let_def case_prod_unfold split: option.splits)

lemma collect_files_snd_silent:
  assumes "fnmatch w' = fnmatch w" "sep w' = sep w" "source_tree w' = source_tree w"
  shows "cfg l' = cfg l \<Longrightarrow> snd (collect_files l' w' True fs) = snd (collect_files l w True fs)"
proof (induction fs)
  case Nil
  show ?case by simp
next
  case (Cons f fs)
  have wk: "walk w' c r a t = walk w c r a t" for c r a t
    by (rule walk_frame [OF assms(1,2)])
  show ?case
    using Cons by (simp add: Let_def case_prod_unfold assms wk split: option.splits)
qed

lemma collect_files_snd_loud:
  "snd (collect_files l w False fs) = snd (collect_files l w True fs)"
proof (induction fs arbitrary: l)
  case Nil
  show ?case by simp
next
  case (Cons f fs)
  have r: "snd (collect_files (log l t) w True fs) = snd (collect_files l w True fs)" for t
    by (rule collect_files_snd_silent) simp_all
  show ?case
    by (simp add: Let_def case_prod_unfold Cons r split: option.splits)
qed

lemma collect_files_snd:
  assumes "cfg l' = cfg l" "fnmatch w' = fnmatch w" "sep w' = sep w" "source_tree w' = source_tree w"
  shows "snd (collect_files l' w' silent fs) = snd (collect_files l w True fs)"
proof -
  have "snd (collect_files l' w' silent fs) = snd (collect_files l' w' True fs)"
    by (cases silent) (simp_all add: collect_files_snd_loud)
  also have "\<dots> = snd (collect_files l w True fs)"
    by (rule collect_files_snd_silent [OF assms(2,3,4,1)])
  finally show ?thesis .
qed


lemma backup_frame_refl [simp]: "backup_frame w w"
  by (simp add: backup_frame_def)




lemma zip_write_frame [simp]: "backup_frame w (zip_write w d z)"
  by (simp add: backup_frame_def zip_write_def)

lemma zip_write_written [simp]: "written (zip_write w d z) = written w @ [z]"
  by (simp add: zip_write_def)

lemma zip_write_entry_names [simp]: "entry_names (zip_write w d z) = entry_names w"
  by (cases "storage w") (simp_all add: zip_write_def entry_names_def entries_def comp_def case_prod_unfold)






lemma ensure_drive_ready: "drive_ready l w \<Longrightarrow> ensure_drive l w = (True, l, made_drive w)"
  by (auto simp: drive_ready_def ensure_drive_def made_drive_def)

lemma made_drive_storage_only [simp]: "storage_only w (made_drive w)"
  by (simp add: made_drive_def)

lemma made_drive_entry_names [simp]: "entry_names (made_drive w) = entry_names w"
  by (simp add: made_drive_def entry_names_def entries_def)


lemma storage_made_drive [simp]: "storage (made_drive w) \<noteq> None"
  by (simp add: made_drive_def)

lemma collected_eq:
  assumes "cfg l' = cfg l" "storage_only w w'"
  shows "snd (collect_files l' w' silent (target_folders (cfg l))) = collected l w"
  unfolding collected_def
  by (rule collect_files_snd) (simp_all add: assms(1) storage_only_fields [OF assms(2)])


lemma run_backup_no_files:
  assumes ready: "drive_ready l w" and zero: "collected l w = []"
  shows "\<exists>l'. run_backup l w now a silent = (l', made_drive w, None)
     \<and> (silent \<longrightarrow> l' = l)
     \<and> (\<not> silent \<and> has_queue l \<longrightarrow> events l' \<noteq> [] \<and> last (events l') = Finish False ''No files found'')"
proof -
  define l1 where "l1 = unless_silent silent
      (\<lambda>la. log la (''--- Starting BACKUP ('' @ hostname (cfg l) @ '') ---'')) l"
  define w2 where "w2 = made_drive w"
  define l3 where "l3 = fst (collect_files l1 w2 silent (target_folders (cfg l)))"
  define l' where "l' = unless_silent silent
      (\<lambda>la. finish (log la ''No files found to back up.'') False ''No files found'') l3"
  have c1: "cfg l1 = cfg l" "has_queue l1 = has_queue l" "silent \<longrightarrow> l1 = l"
    by (cases silent; simp add: l1_def)+
  have ed: "ensure_drive l1 w = (True, l1, w2)"
    unfolding w2_def using ready by (intro ensure_drive_ready) (simp add: drive_ready_def c1)
  have so2: "storage_only w w2" by (simp add: w2_def)
  have cf: "collect_files l1 w2 silent (target_folders (cfg l)) = (l3, [])"
    using collected_eq [OF c1(1) so2, of silent] zero by (simp add: l3_def prod_eq_iff)
  have rb: "run_backup l w now a silent = (l', w2, None)"
    unfolding run_backup_def Let_def
    by (simp only: l1_def [symmetric] ed cf l'_def [symmetric] prod.case bool.case if_True refl)
  have s: "silent \<longrightarrow> l' = l"
    using c1 by (simp add: l'_def l3_def)
  have "has_queue l3 = has_queue l" by (simp add: l3_def c1)
  then have e: "\<not> silent \<and> has_queue l \<longrightarrow> events l' \<noteq> [] \<and> last (events l') = Finish False ''No files found''"
    by (simp add: l'_def last_events_finish)
  from rb s e show ?thesis by (simp add: w2_def)
qed

text \<open>
  Claim C6, as amended. If a backup run whose storage directory is available collects zero
  file entries, it returns without creating an archive (the storage directory keeps its
  entries and nothing is written), and, when it is not silent and has a queue, its last
  event is \<open>finish(False, "No files found")\<close>. A silent run emits nothing.
\<close>

theorem zero_file_backup_creates_no_archive:
  assumes "drive_ready l w" and "collected l w = []"
  shows "snd (snd (run_backup l w now a silent)) = None
     \<and> entry_names (fst (snd (run_backup l w now a silent))) = entry_names w
     \<and> written (fst (snd (run_backup l w now a silent))) = written w
     \<and> (\<not> silent \<and> has_queue l \<longrightarrow>
          events (fst (run_backup l w now a silent)) \<noteq> []
          \<and> last (events (fst (run_backup l w now a silent))) = Finish False ''No files found'')
     \<and> (silent \<longrightarrow> fst (run_backup l w now a silent) = l)"
proof -
  obtain l' where r: "run_backup l w now a silent = (l', made_drive w, None)"
    and s: "silent \<longrightarrow> l' = l"
    and e: "\<not> silent \<and> has_queue l \<longrightarrow> events l' \<noteq> [] \<and> last (events l') = Finish False ''No files found''"
    using run_backup_no_files [OF assms, of now a silent] by blast
  have "written (made_drive w) = written w"
    by (simp add: storage_only_fields [OF made_drive_storage_only])
  with s e show ?thesis unfolding r by simp
qed

theorem zero_file_backup_creates_no_archive_witness:
  "drive_ready (init_logic example_cfg (Some [])) no_source_world
   \<and> collected (init_logic example_cfg (Some [])) no_source_world = []
   \<and> has_queue (init_logic example_cfg (Some []))
   \<and> snd (snd (run_backup (init_logic example_cfg (Some [])) no_source_world (2024, 1, 4, 9, 0, 0) None False)) = None
   \<and> entry_names (fst (snd (run_backup (init_logic example_cfg (Some [])) no_source_world (2024, 1, 4, 9, 0, 0) None False)))
       = entry_names no_source_world
   \<and> last (events (fst (run_backup (init_logic example_cfg (Some [])) no_source_world (2024, 1, 4, 9, 0, 0) None False)))
       = Finish False ''No files found''"
proof -
  let ?l = "init_logic example_cfg (Some [])"
  have h1: "drive_ready ?l no_source_world" by code_simp
  have h2: "collected ?l no_source_world = []" by code_simp
  have h3: "has_queue ?l" by (simp add: has_queue_def init_logic_def)
  from zero_file_backup_creates_no_archive [OF h1 h2, of "(2024, 1, 4, 9, 0, 0)" None False] h1 h2 h3
  show ?thesis by simp
qed

text \<open>
  The claim as stated promises the \<open>finish\<close> event for every run. The scheduler's runs are
  silent: \<open>if not silent\<close> guards the event, and the queue stays empty.
\<close>

theorem zero_file_silent_backup_counterexample:
  "drive_ready (init_logic example_cfg (Some [])) no_source_world
   \<and> collected (init_logic example_cfg (Some [])) no_source_world = []
   \<and> events (fst (run_backup (init_logic example_cfg (Some [])) no_source_world (2024, 1, 4, 9, 0, 0) None True)) = []
   \<and> snd (snd (run_backup (init_logic example_cfg (Some [])) no_source_world (2024, 1, 4, 9, 0, 0) None True)) = None"
  by code_simp




subsection \<open>The stop flag is never reset\<close>

lemma stop_unless_silent:
  "(\<And>la. stop_requested (f la) = stop_requested la) \<Longrightarrow>
   stop_requested (unless_silent s f l) = stop_requested l"
  by (simp add: unless_silent_def)

lemma stop_ensure_drive [simp]:
  "stop_requested (fst (snd (ensure_drive l w))) = stop_requested l"
  by (simp add: ensure_drive_def split: option.splits)

lemma stop_delete_loop [simp]: "stop_requested (fst (delete_loop l w fs)) = stop_requested l"
  by (induction fs arbitrary: l w) (simp_all split: prod.splits option.splits)

lemma stop_cleanup [simp]: "stop_requested (fst (cleanup_old_backups l w)) = stop_requested l"
  by (simp add: cleanup_old_backups_def Let_def)

lemma stop_fold_log [simp]:
  "stop_requested (fold (\<lambda>f la. log la (g f)) fs l) = stop_requested l"
  by (induction fs arbitrary: l) simp_all

lemma stop_scan [simp]: "stop_requested (fst (scan_for_backups l w)) = stop_requested l"
proof -
  obtain b l1 w1 where e: "ensure_drive l w = (b, l1, w1)" by (cases "ensure_drive l w")
  have "stop_requested l1 = stop_requested l" using stop_ensure_drive [of l w] e by simp
  then show ?thesis
    by (cases b) (simp_all add: scan_for_backups_def e Let_def)
qed

lemma stop_write_loop:
  "stop_requested l \<Longrightarrow> stop_requested (fst (write_loop silent a dest n l w idx fs))"
proof (induction fs arbitrary: l w idx)
  case Nil
  then show ?case by simp
next
  case (Cons x fs)
  obtain src z where x: "x = (src, z)" by (cases x)
  have ih: "stop_requested (fst (write_loop silent a dest n l' w' i fs))"
    if "stop_requested l'" for l' w' i
    using that by (rule Cons.IH)
  show ?case
    using Cons.prems
    by (cases silent)
       (auto simp: x Let_def case_prod_unfold stop_seen_def intro!: ih split: option.splits)
qed

lemma stop_analyse_loop [simp]:
  "stop_requested (fst (analyse_loop n l i fs)) = stop_requested l"
  by (induction fs arbitrary: l i) simp_all

lemma stop_extract_loop:
  "stop_requested l \<Longrightarrow> extract_loop a n l w idx fs =
     (if fs = [] then (l, w, LoopDone)
      else (finish (l\<lparr>stop_requested := True\<rparr>) False ''Cancelled'', w, LoopCancelled))"
  by (cases fs) (simp_all add: stop_seen_def)

lemma stop_backup_failed [simp]: "stop_requested (backup_failed s l e) = stop_requested l"
  by (cases s) (simp_all add: backup_failed_def)


lemma stop_run_backup:
  assumes "stop_requested l"
  shows "stop_requested (fst (run_backup l w now a silent))"
  using assms
  by (cases silent)
     (auto simp: run_backup_def Let_def case_prod_unfold stop_write_loop
           split: bool.splits sum.splits loop_end.splits)

lemma stop_run_restore:
  assumes "stop_requested l"
  shows "stop_requested (fst (run_restore l w a))"
  using assms
  by (auto simp: run_restore_def Let_def case_prod_unfold stop_extract_loop zip_error_def
           split: bool.splits option.splits content.splits loop_end.splits)

lemma stop_exec: "stop_requested (fst st) \<Longrightarrow> stop_requested (fst (exec p st))"
  by (cases st; cases p)
     (simp_all add: abort_def stop_run_backup stop_run_restore case_prod_unfold)


lemma stop_abort_exec: "stop_requested (fst (exec p (abort l, w)))"
  by (rule stop_exec) (simp add: abort_def)



lemma has_queue_analyse_loop [simp]: "has_queue (fst (analyse_loop n l i fs)) = has_queue l"
  by (induction fs arbitrary: l i) simp_all





end
